theory Spec2Isabelle
  imports Complex_Main "HOL-Library.Log_Nat" "HOL-Library.Multiset"
begin

section \<open>Adaptive mesh refinement for the Poisson problem\<close>

text \<open>
  The notebook solves the Poisson problem on a triangulated rectangle, assembles a
  residual error indicator cell by cell, ranks the cells, marks a fixed fraction of them,
  hands the edges of the marked cells to the mesh library for refinement, and repeats
  until the summed indicator is small. The mesh library, the form compiler and the
  linear solver are outside the notebook: their data appear here as records and their
  operations as parameters.

  Values of assembled vectors are finite binary64 numbers; they are read as the real
  numbers they denote and sums of them are taken in \<open>real\<close>. The one place where rounding
  decides an integer result, \<open>0.05 * num_cells\<close>, is modelled bit for bit.
\<close>

subsection \<open>Mesh and solution data\<close>

type_synonym point = "real \<times> real"

text \<open>A quadrature rule: weights (already scaled by the Jacobian) and points.\<close>

type_synonym quadrature = "(real \<times> point) list"

text \<open>
  An interior facet has a \<open>'+'\<close> and a \<open>'-'\<close> cell; \<open>FacetNormal\<close> restricted to the
  two sides gives two opposite unit normals.
\<close>

record facet =
  plus_cell :: nat
  minus_cell :: nat
  normal_plus :: "real \<times> real"
  dS_rule :: quadrature

text \<open>
  \<open>num_cells\<close> is \<open>msh.topology.index_map(tdim).size_local\<close>, \<open>c_to_e m c\<close> is
  \<open>msh.topology.connectivity(tdim, 1).links(c)\<close>; \<open>area_rule\<close> and \<open>dx_rule\<close> are the
  rules the form compiler picks for the cell integrals of the area form and of the residual form.
  \<open>vertex_x m v\<close> is the position of vertex \<open>v\<close> (the first two coordinates of
  \<open>msh.geometry.x\<close>), \<open>facet_vertices m F\<close> are the vertices of the edge \<open>F\<close>, and
  \<open>exterior_facets\<close> are the edges that belong to one cell only.
\<close>

record mesh =
  num_cells :: nat
  c_to_e :: "nat \<Rightarrow> nat list"
  area_rule :: "nat \<Rightarrow> quadrature"
  dx_rule :: "nat \<Rightarrow> quadrature"
  interior_facets :: "facet list"
  num_vertices :: nat
  vertex_x :: "nat \<Rightarrow> point"
  facet_vertices :: "nat \<Rightarrow> nat list"
  exterior_facets :: "nat list"

text \<open>
  What the residual form reads of \<open>uh\<close>: \<open>div(grad(uh))\<close> and \<open>grad(uh)\<close> cell by cell.
  \<open>nodal u d\<close> is \<open>uh.x.array[d]\<close>; the space is \<open>("Lagrange", 1)\<close>, with one degree of
  freedom at every vertex, and the degrees of freedom are numbered as the vertices are.
\<close>

record solution =
  div_grad :: "nat \<Rightarrow> point \<Rightarrow> real"
  grad :: "nat \<Rightarrow> point \<Rightarrow> real \<times> real"
  nodal :: "nat \<Rightarrow> real"

text \<open>\<open>f = 40 * exp(-((x[0] - 0.75) ** 2 + (x[1] - 0.75) ** 2) / 0.01)\<close>\<close>

definition source_f :: "point \<Rightarrow> real" where
  "source_f x = 40 * exp (- ((fst x - 0.75) ^ 2 + (snd x - 0.75) ^ 2) / 0.01)"

subsection \<open>Form language\<close>

definition dot :: "real \<times> real \<Rightarrow> real \<times> real \<Rightarrow> real" where
  "dot a b = fst a * fst b + snd a * snd b"

definition opposite :: "real \<times> real \<Rightarrow> real \<times> real" where
  "opposite a = (- fst a, - snd a)"

text \<open>\<open>avg(v) = (v('+') + v('-')) / 2\<close>\<close>

definition avg :: "real \<Rightarrow> real \<Rightarrow> real" where
  "avg v_plus v_minus = (v_plus + v_minus) / 2"

text \<open>\<open>jump(v, n) = v('+') . n('+') + v('-') . n('-')\<close> for a vector field \<open>v\<close>\<close>

definition jump :: "real \<times> real \<Rightarrow> real \<times> real \<Rightarrow> real \<times> real \<Rightarrow> real \<times> real \<Rightarrow> real" where
  "jump v_plus v_minus n_plus n_minus = dot v_plus n_plus + dot v_minus n_minus"

text \<open>
  \<open>w = TestFunction(DG)\<close> with \<open>DG\<close> the piecewise constants: the \<open>i\<close>-th basis function
  is one on cell \<open>i\<close> and zero on every other cell.
\<close>

definition test_fn :: "nat \<Rightarrow> nat \<Rightarrow> real" where
  "test_fn i K = (if K = i then 1 else 0)"

definition quad :: "quadrature \<Rightarrow> (point \<Rightarrow> real) \<Rightarrow> real" where
  "quad r g = (\<Sum>(wt, x)\<leftarrow>r. wt * g x)"

text \<open>
  \<open>cell_area = Function(DG, assemble_vector(form(w * dx)))\<close>: entry \<open>i\<close> of the vector,
  which is also the value of the function on cell \<open>i\<close>.
\<close>

definition cell_area :: "mesh \<Rightarrow> nat \<Rightarrow> real" where
  "cell_area m i = (\<Sum>K\<leftarrow>[0..<num_cells m]. quad (area_rule m K) (\<lambda>x. test_fn i K))"

subsection \<open>The residual form\<close>

text \<open>
  Inside the loop:
  \<^verbatim>\<open>2*cell_area*w*(div(grad(uh))+f)**2*dx
    + np.sqrt(2)*avg(cell_area**(1./2))*avg(w)*jump(grad(uh),n)**2*dS\<close>
  The power \<open>1/2\<close> is taken of a cell area, which is not negative on a mesh whose
  weights are not negative; it is the square root there.
\<close>

definition cell_integrand ::
  "mesh \<Rightarrow> solution \<Rightarrow> (point \<Rightarrow> real) \<Rightarrow> nat \<Rightarrow> nat \<Rightarrow> point \<Rightarrow> real" where
  "cell_integrand m u f i K x =
     2 * cell_area m K * test_fn i K * (div_grad u K x + f x) ^ 2"

definition facet_integrand ::
  "mesh \<Rightarrow> solution \<Rightarrow> nat \<Rightarrow> facet \<Rightarrow> point \<Rightarrow> real" where
  "facet_integrand m u i E x =
     sqrt 2 * avg (sqrt (cell_area m (plus_cell E))) (sqrt (cell_area m (minus_cell E)))
       * avg (test_fn i (plus_cell E)) (test_fn i (minus_cell E))
       * (jump (grad u (plus_cell E) x) (grad u (minus_cell E) x)
            (normal_plus E) (opposite (normal_plus E))) ^ 2"

text \<open>Entry \<open>i\<close> of \<open>assemble_vector(residual)\<close>: all cell integrals, then all interior facet integrals.\<close>

definition residual_entry :: "mesh \<Rightarrow> solution \<Rightarrow> (point \<Rightarrow> real) \<Rightarrow> nat \<Rightarrow> real" where
  "residual_entry m u f i =
     (\<Sum>K\<leftarrow>[0..<num_cells m]. quad (dx_rule m K) (cell_integrand m u f i K))
   + (\<Sum>E\<leftarrow>interior_facets m. quad (dS_rule E) (facet_integrand m u i E))"

definition array_cell_res :: "mesh \<Rightarrow> solution \<Rightarrow> (point \<Rightarrow> real) \<Rightarrow> real list" where
  "array_cell_res m u f = map (residual_entry m u f) [0..<num_cells m]"

text \<open>
  The first estimate, made once before the loop, has the other sign in the cell term:
  \<^verbatim>\<open>2*cell_area*w*(div(grad(uh))-f)**2*dx + ...\<close>
\<close>

definition cell_integrand_first ::
  "mesh \<Rightarrow> solution \<Rightarrow> (point \<Rightarrow> real) \<Rightarrow> nat \<Rightarrow> nat \<Rightarrow> point \<Rightarrow> real" where
  "cell_integrand_first m u f i K x =
     2 * cell_area m K * test_fn i K * (div_grad u K x - f x) ^ 2"

definition residual_entry_first :: "mesh \<Rightarrow> solution \<Rightarrow> (point \<Rightarrow> real) \<Rightarrow> nat \<Rightarrow> real" where
  "residual_entry_first m u f i =
     (\<Sum>K\<leftarrow>[0..<num_cells m]. quad (dx_rule m K) (cell_integrand_first m u f i K))
   + (\<Sum>E\<leftarrow>interior_facets m. quad (dS_rule E) (facet_integrand m u i E))"

subsection \<open>Marking\<close>

text \<open>
  \<open>num_cells_to_refine = int(np.ceil(0.05*num_cells))\<close>. The literal \<open>0.05\<close> is the
  binary64 number \<open>3602879701896397 / 2 ^ 56\<close>. Its product with the integer \<open>n\<close> is
  rounded to 53 significant bits, ties to even: \<open>round_to_53\<close> does so on the numerator.
\<close>

definition round_to_53 :: "nat \<Rightarrow> nat" where
  "round_to_53 N =
     (let L = floorlog 2 N in
      if L \<le> 53 then N
      else let s = L - 53;
               m = N div 2 ^ s;
               r = N mod 2 ^ s;
               h = 2 ^ (s - 1)
           in (if h < r \<or> (r = h \<and> odd m) then m + 1 else m) * 2 ^ s)"

definition fl_mul_005 :: "nat \<Rightarrow> real" where
  "fl_mul_005 n = real (round_to_53 (3602879701896397 * n)) / 2 ^ 56"

definition num_cells_to_refine :: "nat \<Rightarrow> nat" where
  "num_cells_to_refine n = nat \<lceil>fl_mul_005 n\<rceil>"

text \<open>
  \<open>sorted(xs, key=..., reverse=True)\<close>: the list is reversed, sorted stably in ascending
  order of the key, and reversed again.
\<close>

definition sorted_reverse :: "('a \<Rightarrow> real) \<Rightarrow> 'a list \<Rightarrow> 'a list" where
  "sorted_reverse key xs = rev (sort_key key (rev xs))"

text \<open>
  \<^verbatim>\<open>[idx for idx, value in sorted(enumerate(array_cell_res), key=lambda x: x[-1], reverse=True)]\<close>
\<close>

definition cell_ord_by_res :: "real list \<Rightarrow> nat list" where
  "cell_ord_by_res arr = map fst (sorted_reverse snd (enumerate 0 arr))"

text \<open>\<open>marked_cells = cell_ord_by_res[0:num_cells_to_refine]\<close>\<close>

definition marked_cells :: "nat \<Rightarrow> real list \<Rightarrow> nat list" where
  "marked_cells n arr = take (num_cells_to_refine n) (cell_ord_by_res arr)"

text \<open>
  \<^verbatim>\<open>edges=[]
  for cell in marked_cells:
      for e in c_to_e.links(cell):
          edges.append(e)\<close>
\<close>

definition collect_edges :: "(nat \<Rightarrow> nat list) \<Rightarrow> nat list \<Rightarrow> nat list" where
  "collect_edges links marked =
     fold (\<lambda>cell edges. fold (\<lambda>e edges. edges @ [e]) (links cell) edges) marked []"

subsection \<open>Library services\<close>

text \<open>
  \<open>refine m edges\<close> is \<open>mesh.refine(msh, np.array(edges))[0]\<close>, and
  \<open>linear_problem_solve m f bcs\<close> is \<open>LinearProblem(a, L, bcs=bcs, ...).solve()\<close> for the
  forms \<open>a = inner(grad(u), grad(v)) * dx\<close> and \<open>L = inner(f, v) * dx\<close> on \<open>m\<close>; a
  boundary condition \<open>dirichletbc(value, dofs, V)\<close> is the pair of its value and its dofs.
\<close>

type_synonym dirichletbc = "real \<times> nat list"

record services =
  refine :: "mesh \<Rightarrow> nat list \<Rightarrow> mesh"
  linear_problem_solve :: "mesh \<Rightarrow> (point \<Rightarrow> real) \<Rightarrow> dirichletbc list \<Rightarrow> solution"

subsection \<open>The Dirichlet boundary\<close>

text \<open>
  \<open>np.isclose(a, b)\<close> with the default tolerances \<open>rtol = 1e-05\<close> and \<open>atol = 1e-08\<close>:
  \<open>|a - b| <= atol + rtol * |b|\<close>. Coordinates are read as the real numbers they denote.
\<close>

definition isclose :: "real \<Rightarrow> real \<Rightarrow> bool" where
  "isclose a b \<longleftrightarrow> \<bar>a - b\<bar> \<le> 1 / 10 ^ 8 + 1 / 10 ^ 5 * \<bar>b\<bar>"

text \<open>
  \<^verbatim>\<open>bc_marker = lambda x: np.isclose(x[0], 0.0) | np.isclose(x[0], 2.0)
                        | np.isclose(x[1], 0.0) | np.isclose(x[1], 1.0)\<close>
\<close>

definition bc_marker :: "point \<Rightarrow> bool" where
  "bc_marker x \<longleftrightarrow>
     isclose (fst x) 0 \<or> isclose (fst x) 2 \<or> isclose (snd x) 0 \<or> isclose (snd x) 1"

text \<open>
  Modelled from the spec: \<open>mesh.locate_entities_boundary\<close>, which belongs to the mesh
  library and has no code in the notebook. The boundary predicate selects the Dirichlet
  facets: of the facets on the boundary of the mesh, those whose vertices all satisfy the
  marker.
\<close>

definition locate_entities_boundary :: "mesh \<Rightarrow> (point \<Rightarrow> bool) \<Rightarrow> nat list" where
  "locate_entities_boundary m marker =
     filter (\<lambda>F. \<forall>v\<in>set (facet_vertices m F). marker (vertex_x m v)) (exterior_facets m)"

text \<open>
  Modelled from the spec: \<open>fem.locate_dofs_topological\<close>, which belongs to the
  discretization library and has no code in the notebook. It locates the boundary degrees
  of freedom: for the space of degree 1, the vertices of the given facets.
\<close>

definition locate_dofs_topological :: "mesh \<Rightarrow> nat list \<Rightarrow> nat list" where
  "locate_dofs_topological m facets = remdups (concat (map (facet_vertices m) facets))"

text \<open>
  \<^verbatim>\<open>def solve_poisson_homog_dirichlet(msh, f, bc_marker):
      V = fem.functionspace(msh, ("Lagrange", 1))
      facets = mesh.locate_entities_boundary(msh, dim=(msh.topology.dim - 1), marker=bc_marker)
      dofs = fem.locate_dofs_topological(V=V, entity_dim=1, entities=facets)
      bc = fem.dirichletbc(value=ScalarType(0), dofs=dofs, V=V)
      ...
      problem = LinearProblem(a, L, bcs=[bc], petsc_options=...)
      uh = problem.solve()
      return uh, V\<close>
  The space \<open>V\<close> is fixed by the mesh; the function is modelled by the \<open>uh\<close> it returns.
\<close>

definition solve_poisson_homog_dirichlet ::
  "services \<Rightarrow> mesh \<Rightarrow> (point \<Rightarrow> real) \<Rightarrow> (point \<Rightarrow> bool) \<Rightarrow> solution" where
  "solve_poisson_homog_dirichlet L m f marker =
     (let facets = locate_entities_boundary m marker;
          dofs = locate_dofs_topological m facets;
          bc = (0, dofs)
      in linear_problem_solve L m f [bc])"

subsection \<open>The loop state\<close>

record amr_state =
  msh :: mesh
  uh :: solution
  tot_residual :: real
  iteration :: nat

text \<open>The literal \<open>5e-2\<close> is the same binary64 number as \<open>0.05\<close>.\<close>

definition threshold :: real where
  "threshold = 3602879701896397 / 2 ^ 56"

definition loop_body :: "services \<Rightarrow> (point \<Rightarrow> real) \<Rightarrow> amr_state \<Rightarrow> amr_state" where
  "loop_body L f s =
     (let m = msh s;
          arr = array_cell_res m (uh s) f;
          tot = sum_list arr;
          marked = marked_cells (num_cells m) arr;
          edges = collect_edges (c_to_e m) marked;
          m' = refine L m edges;
          u' = solve_poisson_homog_dirichlet L m' f bc_marker
      in \<lparr>msh = m', uh = u', tot_residual = tot, iteration = iteration s + 1\<rparr>)"

text \<open>\<open>while tot_residual > 5e-2: ...\<close>; a run that never leaves the loop is \<open>None\<close>.\<close>

partial_function (option) amr_while ::
  "services \<Rightarrow> (point \<Rightarrow> real) \<Rightarrow> amr_state \<Rightarrow> amr_state option" where
  "amr_while L f s =
     (if threshold < tot_residual s then amr_while L f (loop_body L f s) else Some s)"

text \<open>\<open>tot_residual = 1; iteration = 0\<close>, then the loop.\<close>

definition initial_state :: "mesh \<Rightarrow> solution \<Rightarrow> amr_state" where
  "initial_state m u = \<lparr>msh = m, uh = u, tot_residual = 1, iteration = 0\<rparr>"

definition adaptive_loop ::
  "services \<Rightarrow> (point \<Rightarrow> real) \<Rightarrow> mesh \<Rightarrow> solution \<Rightarrow> amr_state option" where
  "adaptive_loop L f m u = amr_while L f (initial_state m u)"

subsection \<open>Well-formed meshes\<close>

text \<open>
  The mesh is created with \<open>cell_type=mesh.CellType.triangle\<close>: every cell has three
  edges. The edges of a mesh are the edges of its cells.
\<close>

definition triangles :: "mesh \<Rightarrow> bool" where
  "triangles m \<longleftrightarrow> 0 < num_cells m \<and> (\<forall>c<num_cells m. length (c_to_e m c) = 3)"

definition edges_of :: "mesh \<Rightarrow> nat set" where
  "edges_of m = (\<Union>c\<in>{..<num_cells m}. set (c_to_e m c))"

text \<open>The quadrature rules of the form compiler have weights that are not negative.\<close>

definition nonneg_weights :: "mesh \<Rightarrow> bool" where
  "nonneg_weights m \<longleftrightarrow>
     (\<forall>K<num_cells m. \<forall>p\<in>set (area_rule m K). 0 \<le> fst p)
   \<and> (\<forall>K<num_cells m. \<forall>p\<in>set (dx_rule m K). 0 \<le> fst p)
   \<and> (\<forall>E\<in>set (interior_facets m). \<forall>p\<in>set (dS_rule E). 0 \<le> fst p)"

text \<open>
  Modelled from the spec: \<open>mesh.refine\<close>, which belongs to the mesh library and has no code
  in the notebook. The mesh is refined by bisecting the marked edges, and after one
  refinement step the cell count strictly increases: refining a triangular mesh at a list
  of its own edges that is not empty gives a triangular mesh with more cells.
\<close>

definition refines :: "services \<Rightarrow> bool" where
  "refines L \<longleftrightarrow>
     (\<forall>m es. triangles m \<and> es \<noteq> [] \<and> set es \<subseteq> edges_of m
        \<longrightarrow> triangles (refine L m es) \<and> num_cells m < num_cells (refine L m es))"

text \<open>
  The domain is the rectangle \<open>[0, 2] x [0, 1]\<close>
  (\<open>create_rectangle(points=((0.0, 0.0), (2.0, 1.0)), ...)\<close>). In a mesh of it the
  vertices of the exterior facets are vertices of the mesh on the four edges of the
  rectangle, and every vertex on the four edges belongs to an exterior facet.
\<close>

definition on_four_edges :: "point \<Rightarrow> bool" where
  "on_four_edges x \<longleftrightarrow>
     0 \<le> fst x \<and> fst x \<le> 2 \<and> 0 \<le> snd x \<and> snd x \<le> 1
   \<and> (fst x = 0 \<or> fst x = 2 \<or> snd x = 0 \<or> snd x = 1)"

definition rectangle_mesh :: "mesh \<Rightarrow> bool" where
  "rectangle_mesh m \<longleftrightarrow>
     (\<forall>F\<in>set (exterior_facets m). \<forall>v\<in>set (facet_vertices m F).
        v < num_vertices m \<and> on_four_edges (vertex_x m v))
   \<and> (\<forall>v<num_vertices m. on_four_edges (vertex_x m v)
        \<longrightarrow> (\<exists>F\<in>set (exterior_facets m). v \<in> set (facet_vertices m F)))"

text \<open>
  Modelled from the spec: \<open>LinearProblem.solve\<close>, which belongs to the solver library and
  has no code in the notebook. The solution field has \<open>u = 0\<close> on the selected boundary,
  by an exact factorization: the solution of a problem with one Dirichlet condition has
  the value of the condition at each of its dofs.
\<close>

definition enforces_bc :: "services \<Rightarrow> bool" where
  "enforces_bc L \<longleftrightarrow>
     (\<forall>m f val dofs. \<forall>d\<in>set dofs. nodal (linear_problem_solve L m f [(val, dofs)]) d = val)"

subsection \<open>Example data\<close>

text \<open>
  Two triangles \<open>(0,0), (1,0), (1,1)\<close> and \<open>(1,0), (2,0), (1,1)\<close> that share the edge
  \<open>x = 1\<close> (edge 1), each of area \<open>1/2\<close>, with the one-point rule at the centroid and
  the midpoint rule on the shared edge.
\<close>

definition example_mesh :: mesh where
  "example_mesh =
     \<lparr>num_cells = 2,
      c_to_e = (\<lambda>c. if c = 0 then [0, 1, 2] else [1, 3, 4]),
      area_rule = (\<lambda>c. [(1 / 2, if c = 0 then (2 / 3, 1 / 3) else (4 / 3, 1 / 3))]),
      dx_rule = (\<lambda>c. [(1 / 2, if c = 0 then (2 / 3, 1 / 3) else (4 / 3, 1 / 3))]),
      interior_facets =
        [\<lparr>plus_cell = 0, minus_cell = 1, normal_plus = (1, 0), dS_rule = [(1, (1, 1 / 2))]\<rparr>],
      num_vertices = 4,
      vertex_x = (\<lambda>v. if v = 0 then (0, 0) else if v = 1 then (1, 0)
                      else if v = 2 then (1, 1) else (2, 0)),
      facet_vertices = (\<lambda>F. if F = 0 then [0, 1] else if F = 1 then [1, 2]
                      else if F = 2 then [0, 2] else if F = 3 then [1, 3] else [3, 2]),
      exterior_facets = [0, 2, 3, 4]\<rparr>"

text \<open>
  The rectangle \<open>[0, 2] x [0, 1]\<close> cut into four triangles by its diagonals: the corners
  are the vertices 0 to 3, the centre \<open>(1, 1/2)\<close> is vertex 4, the sides are the edges 0
  to 3 and the half diagonals the edges 4 to 7.
\<close>

definition rect_mesh :: mesh where
  "rect_mesh =
     \<lparr>num_cells = 4,
      c_to_e = (\<lambda>c. if c = 0 then [0, 5, 4] else if c = 1 then [1, 6, 5]
                      else if c = 2 then [2, 7, 6] else [3, 4, 7]),
      area_rule = (\<lambda>c. [(1 / 2, if c = 0 then (1, 1 / 6) else if c = 1 then (5 / 3, 1 / 2)
                      else if c = 2 then (1, 5 / 6) else (1 / 3, 1 / 2))]),
      dx_rule = (\<lambda>c. [(1 / 2, if c = 0 then (1, 1 / 6) else if c = 1 then (5 / 3, 1 / 2)
                      else if c = 2 then (1, 5 / 6) else (1 / 3, 1 / 2))]),
      interior_facets =
        [\<lparr>plus_cell = 0, minus_cell = 3, normal_plus = (- 1 / sqrt 5, 2 / sqrt 5),
          dS_rule = [(sqrt 5 / 2, (1 / 2, 1 / 4))]\<rparr>,
         \<lparr>plus_cell = 0, minus_cell = 1, normal_plus = (1 / sqrt 5, 2 / sqrt 5),
          dS_rule = [(sqrt 5 / 2, (3 / 2, 1 / 4))]\<rparr>,
         \<lparr>plus_cell = 1, minus_cell = 2, normal_plus = (- 1 / sqrt 5, 2 / sqrt 5),
          dS_rule = [(sqrt 5 / 2, (3 / 2, 3 / 4))]\<rparr>,
         \<lparr>plus_cell = 2, minus_cell = 3, normal_plus = (- 1 / sqrt 5, - 2 / sqrt 5),
          dS_rule = [(sqrt 5 / 2, (1 / 2, 3 / 4))]\<rparr>],
      num_vertices = 5,
      vertex_x = (\<lambda>v. if v = 0 then (0, 0) else if v = 1 then (2, 0)
                      else if v = 2 then (2, 1) else if v = 3 then (0, 1) else (1, 1 / 2)),
      facet_vertices = (\<lambda>F. if F = 0 then [0, 1] else if F = 1 then [1, 2]
                      else if F = 2 then [2, 3] else if F = 3 then [3, 0]
                      else if F = 4 then [0, 4] else if F = 5 then [1, 4]
                      else if F = 6 then [2, 4] else [3, 4]),
      exterior_facets = [0, 1, 2, 3]\<rparr>"

text \<open>The zero function, and the piecewise linear hat \<open>1 - |x - 1|\<close>.\<close>

definition flat_u :: solution where
  "flat_u = \<lparr>div_grad = (\<lambda>K x. 0), grad = (\<lambda>K x. (0, 0)), nodal = (\<lambda>d. 0)\<rparr>"

definition hat_u :: solution where
  "hat_u = \<lparr>div_grad = (\<lambda>K x. 0), grad = (\<lambda>K x. if K = 0 then (1, 0) else (- 1, 0)),
             nodal = (\<lambda>d. if d = 1 \<or> d = 2 then 1 else 0)\<rparr>"

text \<open>
  A stand-in for the libraries that adds one cell for every edge it is given, one that
  gives the mesh back as it is, and one whose solution is 1 at every degree of freedom but
  those of the boundary condition.
\<close>

definition toy_services :: services where
  "toy_services =
     \<lparr>refine = (\<lambda>m es. m\<lparr>num_cells := num_cells m + length es,
                                c_to_e := (\<lambda>c. [3 * c, 3 * c + 1, 3 * c + 2])\<rparr>),
      linear_problem_solve = (\<lambda>m f bcs. flat_u)\<rparr>"

definition stuck_services :: services where
  "stuck_services =
     \<lparr>refine = (\<lambda>m es. m), linear_problem_solve = (\<lambda>m f bcs. flat_u)\<rparr>"

definition pinning_services :: services where
  "pinning_services =
     \<lparr>refine = (\<lambda>m es. m),
      linear_problem_solve = (\<lambda>m f bcs.
        \<lparr>div_grad = (\<lambda>K x. 0), grad = (\<lambda>K x. (0, 0)),
         nodal = (\<lambda>d. case bcs of [] \<Rightarrow> 1
                    | bc # rest \<Rightarrow> if d \<in> set (snd bc) then fst bc else 1)\<rparr>)\<rparr>"

section \<open>Marking: how many cells\<close>

lemma round_to_53_small: "floorlog 2 N \<le> 53 \<Longrightarrow> round_to_53 N = N"
  by (simp add: round_to_53_def)

lemma round_to_53_cases:
  assumes "53 < floorlog 2 N"
  shows "(round_to_53 N = (N div 2 ^ (floorlog 2 N - 53)) * 2 ^ (floorlog 2 N - 53)
            \<and> N mod 2 ^ (floorlog 2 N - 53) \<le> 2 ^ (floorlog 2 N - 54))
       \<or> (round_to_53 N = (N div 2 ^ (floorlog 2 N - 53) + 1) * 2 ^ (floorlog 2 N - 53)
            \<and> 2 ^ (floorlog 2 N - 54) \<le> N mod 2 ^ (floorlog 2 N - 53))"
proof -
  have "floorlog 2 N - 53 - 1 = floorlog 2 N - 54" by simp
  with assms show ?thesis
    by (auto simp: round_to_53_def Let_def)
qed

lemma round_to_53_near:
  assumes "53 < floorlog 2 N"
  shows "round_to_53 N \<le> N + 2 ^ (floorlog 2 N - 54) \<and> N \<le> round_to_53 N + 2 ^ (floorlog 2 N - 54)"
proof -
  let ?s = "floorlog 2 N - 53"
  let ?h = "(2::nat) ^ (floorlog 2 N - 54)"
  have s: "?s = Suc (floorlog 2 N - 54)" using assms by simp
  have two: "(2::nat) ^ ?s = 2 * ?h" by (simp add: s)
  have split: "N = (N div 2 ^ ?s) * 2 ^ ?s + N mod 2 ^ ?s" by (rule div_mult_mod_eq [symmetric])
  have lt: "N mod 2 ^ ?s < 2 ^ ?s" by simp
  from round_to_53_cases [OF assms] show ?thesis
  proof (elim disjE conjE)
    assume "round_to_53 N = (N div 2 ^ ?s) * 2 ^ ?s" "N mod 2 ^ ?s \<le> ?h"
    with split show ?thesis by linarith
  next
    assume r: "round_to_53 N = (N div 2 ^ ?s + 1) * 2 ^ ?s" and "?h \<le> N mod 2 ^ ?s"
    from r have "round_to_53 N = (N div 2 ^ ?s) * 2 ^ ?s + 2 ^ ?s" by (simp add: algebra_simps)
    with split lt two \<open>?h \<le> N mod 2 ^ ?s\<close> show ?thesis by linarith
  qed
qed

lemma round_to_53_exact:
  assumes L: "53 < floorlog 2 N"
    and N: "N = a * 2 ^ (floorlog 2 N - 53) + d"
    and d: "d < 2 ^ (floorlog 2 N - 54)"
  shows "round_to_53 N = a * 2 ^ (floorlog 2 N - 53)"
proof -
  let ?s = "floorlog 2 N - 53"
  let ?h = "(2::nat) ^ (floorlog 2 N - 54)"
  have s: "?s = Suc (floorlog 2 N - 54)" using L by simp
  have two: "(2::nat) ^ ?s = 2 * ?h" by (simp add: s)
  have dlt: "d < 2 ^ ?s" using d two by linarith
  have dv: "N div 2 ^ ?s = a"
    by (subst N) (simp add: dlt)
  have md: "N mod 2 ^ ?s = d"
    by (subst N) (simp add: dlt)
  have hh: "floorlog 2 N - 53 - 1 = floorlog 2 N - 54" by simp
  show ?thesis using L d
    by (simp add: round_to_53_def Let_def dv md hh)
qed

lemma floorlog_005_le:
  assumes "n < 2 ^ 31"
  shows "floorlog 2 (3602879701896397 * n) \<le> 83"
proof -
  have "3602879701896397 * n < 3602879701896397 * (2::nat) ^ 31"
    using assms by simp
  also have "\<dots> < 2 ^ 83" by simp
  finally show ?thesis by (intro floorlog_leI) simp_all
qed

lemma round_005_near:
  assumes n: "n < 2 ^ 31"
  shows "round_to_53 (3602879701896397 * n) \<le> 3602879701896397 * n + 2 ^ 29
       \<and> 3602879701896397 * n \<le> round_to_53 (3602879701896397 * n) + 2 ^ 29"
proof (cases "floorlog 2 (3602879701896397 * n) \<le> 53")
  case True
  then show ?thesis by (simp add: round_to_53_small)
next
  case False
  let ?N = "3602879701896397 * n"
  from False have L: "53 < floorlog 2 ?N" by simp
  have "floorlog 2 ?N - 54 \<le> 29" using floorlog_005_le [OF n] by simp
  then have "(2::nat) ^ (floorlog 2 ?N - 54) \<le> 2 ^ 29"
    by (intro power_increasing) simp_all
  with round_to_53_near [OF L] show ?thesis by linarith
qed

lemma round_to_53_drop:
  assumes N: "N = q * 2 ^ k + 4 * q"
    and k: "56 \<le> k" "k < floorlog 2 N" "floorlog 2 N \<le> k + 53"
  shows "round_to_53 N = q * 2 ^ k"
proof -
  let ?L = "floorlog 2 N"
  have pos: "0 < N" using k by (auto simp: floorlog_def split: if_splits)
  have ub: "N < 2 ^ ?L" using floorlog_bounds [of N 2] pos by simp
  have e1: "(2::nat) ^ ?L = 2 ^ k * 2 ^ (?L - k)"
    using k by (simp flip: power_add)
  have "q * 2 ^ k < 2 ^ k * 2 ^ (?L - k)" using ub N e1 by linarith
  then have qlt: "q < 2 ^ (?L - k)" by simp
  have "?L - 54 = (k - 54) + (?L - k)" using k by simp
  then have e2: "(2::nat) ^ (?L - 54) = 2 ^ (k - 54) * 2 ^ (?L - k)"
    by (simp only: power_add)
  have "(2::nat) ^ 2 \<le> 2 ^ (k - 54)"
    using k by (intro power_increasing) simp_all
  then have "4 * 2 ^ (?L - k) \<le> 2 ^ (k - 54) * (2::nat) ^ (?L - k)"
    by simp
  with qlt e2 have d: "4 * q < 2 ^ (?L - 54)" by linarith
  have "k = (k - (?L - 53)) + (?L - 53)" using k by simp
  then have e3: "(2::nat) ^ k = 2 ^ (k - (?L - 53)) * 2 ^ (?L - 53)"
    by (metis power_add)
  have N': "N = (q * 2 ^ (k - (?L - 53))) * 2 ^ (?L - 53) + 4 * q"
    using N e3 by (metis mult.assoc)
  have L: "53 < ?L" using k by simp
  have "round_to_53 N = (q * 2 ^ (k - (?L - 53))) * 2 ^ (?L - 53)"
    by (rule round_to_53_exact [OF L N' d])
  also have "\<dots> = q * 2 ^ k" using e3 by (metis mult.assoc)
  finally show ?thesis .
qed

lemma round_005_multiple:
  assumes q: "q < 2 ^ 31"
  shows "round_to_53 (3602879701896397 * (20 * q)) = q * 2 ^ 56"
proof (cases "q = 0")
  case True
  then show ?thesis by (simp add: round_to_53_def floorlog_def)
next
  case False
  let ?N = "3602879701896397 * (20 * q)"
  have N: "?N = q * 2 ^ 56 + 4 * q" by simp
  have "2 ^ 56 \<le> ?N" using False by simp
  then have L57: "57 \<le> floorlog 2 ?N" by (intro floorlog_geI) simp_all
  have "20 * q < 2 ^ 36" using q by simp
  then have "3602879701896397 * (20 * q) < 3602879701896397 * (2::nat) ^ 36" by simp
  also have "\<dots> < 2 ^ 88" by simp
  finally have L88: "floorlog 2 ?N \<le> 88" by (intro floorlog_leI) simp_all
  show ?thesis
    by (rule round_to_53_drop [OF N]) (use L57 L88 in simp_all)
qed

lemma num_cells_to_refine_ceil:
  assumes n: "n < 2 ^ 31"
  shows "num_cells_to_refine n = nat \<lceil>0.05 * real n\<rceil>"
proof (cases "n mod 20 = 0")
  case True
  then obtain q where nq: "n = 20 * q" by (auto simp: mod_eq_0_iff_dvd)
  with n have "q < 2 ^ 31" by simp
  then have "round_to_53 (3602879701896397 * n) = q * 2 ^ 56"
    unfolding nq by (rule round_005_multiple)
  then have "fl_mul_005 n = real q" by (simp add: fl_mul_005_def)
  then show ?thesis by (simp add: num_cells_to_refine_def nq)
next
  case False
  define q where "q = n div 20"
  define j where "j = n mod 20"
  define R where "R = round_to_53 (3602879701896397 * n)"
  have nq: "n = 20 * q + j" by (simp add: q_def j_def)
  have j: "1 \<le> j" "j \<le> 19" using False by (simp_all add: j_def) 
  have near: "R \<le> 3602879701896397 * n + 2 ^ 29" "3602879701896397 * n \<le> R + 2 ^ 29"
    using round_005_near [OF n] by (simp_all add: R_def)
  have lo: "q * 2 ^ 56 < R" using near j n unfolding nq by simp
  have hi: "R \<le> (q + 1) * 2 ^ 56" using near j n unfolding nq by simp
  have "real (q * 2 ^ 56) < real R" "real R \<le> real ((q + 1) * 2 ^ 56)"
    using lo hi by (simp_all only: of_nat_less_iff of_nat_le_iff)
  then have "real q < real R / 2 ^ 56" "real R / 2 ^ 56 \<le> real q + 1"
    by (simp_all add: field_simps)
  then have "\<lceil>real R / 2 ^ 56\<rceil> = int q + 1"
    by (intro ceiling_unique) simp_all
  then have lhs: "num_cells_to_refine n = q + 1"
    by (simp add: num_cells_to_refine_def fl_mul_005_def R_def)
  have "real q < 0.05 * real n" "0.05 * real n \<le> real q + 1"
    using j unfolding nq by simp_all
  then have "\<lceil>0.05 * real n\<rceil> = int q + 1"
    by (intro ceiling_unique) simp_all
  with lhs show ?thesis by simp
qed


lemma length_array_cell_res [simp]: "length (array_cell_res m u f) = num_cells m"
  by (simp add: array_cell_res_def)

lemma length_cell_ord_by_res [simp]: "length (cell_ord_by_res arr) = length arr"
  by (simp add: cell_ord_by_res_def sorted_reverse_def)

lemma ceil_005_le: "nat \<lceil>0.05 * real n\<rceil> \<le> n"
proof -
  have "0.05 * real n \<le> real n" by simp
  then have "\<lceil>0.05 * real n\<rceil> \<le> int n" by (simp add: ceiling_le_iff)
  then show ?thesis by simp
qed

text \<open>
  C3: in an iteration on a mesh with \<open>n\<close> cells (the library counts cells in 32 bits), the
  number of marked cells is \<open>ceil(0.05 * n)\<close>; the rounding of the binary64 product never
  changes the ceiling. On 128 cells, 7 cells are marked.
\<close>

theorem marked_count_is_ceil:
  assumes "num_cells m < 2 ^ 31"
  shows "length (marked_cells (num_cells m) (array_cell_res m u f))
           = nat \<lceil>0.05 * real (num_cells m)\<rceil>"
  using num_cells_to_refine_ceil [OF assms] ceil_005_le [of "num_cells m"]
  by (simp add: marked_cells_def)

theorem marked_count_is_ceil_witness:
  "num_cells \<lparr>num_cells = 128, c_to_e = (\<lambda>c. [3 * c, 3 * c + 1, 3 * c + 2]),
       area_rule = (\<lambda>c. [(1 / 64, (0, 0))]), dx_rule = (\<lambda>c. [(1 / 64, (0, 0))]),
       interior_facets = [], num_vertices = 0, vertex_x = (\<lambda>v. (0, 0)),
        facet_vertices = (\<lambda>F. []), exterior_facets = []\<rparr> < 2 ^ 31
   \<and> length (marked_cells 128 (array_cell_res
       \<lparr>num_cells = 128, c_to_e = (\<lambda>c. [3 * c, 3 * c + 1, 3 * c + 2]),
        area_rule = (\<lambda>c. [(1 / 64, (0, 0))]), dx_rule = (\<lambda>c. [(1 / 64, (0, 0))]),
        interior_facets = [], num_vertices = 0, vertex_x = (\<lambda>v. (0, 0)),
        facet_vertices = (\<lambda>F. []), exterior_facets = []\<rparr>
       \<lparr>div_grad = (\<lambda>K x. 0), grad = (\<lambda>K x. (0, 0)), nodal = (\<lambda>d. 0)\<rparr> (\<lambda>x. 1))) = 7"
  using marked_count_is_ceil [of
      "\<lparr>num_cells = 128, c_to_e = (\<lambda>c. [3 * c, 3 * c + 1, 3 * c + 2]),
        area_rule = (\<lambda>c. [(1 / 64, (0, 0))]), dx_rule = (\<lambda>c. [(1 / 64, (0, 0))]),
        interior_facets = [], num_vertices = 0, vertex_x = (\<lambda>v. (0, 0)),
        facet_vertices = (\<lambda>F. []), exterior_facets = []\<rparr>"
      "\<lparr>div_grad = (\<lambda>K x. 0), grad = (\<lambda>K x. (0, 0)), nodal = (\<lambda>d. 0)\<rparr>" "\<lambda>x. 1"]
  by simp

section \<open>Ranking\<close>

lemma sorted_wrt_ties:
  fixes key :: "'a \<Rightarrow> 'b::linorder"
  assumes "sorted_wrt (\<lambda>a b. key a \<le> key b) zs"
    and "\<And>k. sorted_wrt P (filter (\<lambda>y. key y = k) zs)"
  shows "sorted_wrt (\<lambda>a b. key a < key b \<or> (key a = key b \<and> P a b)) zs"
  using assms
proof (induction zs)
  case Nil
  then show ?case by simp
next
  case (Cons z zs)
  have tail: "sorted_wrt P (filter (\<lambda>y. key y = k) zs)" for k
    using Cons.prems(2) [of k] by (simp split: if_splits)
  have head: "key z < key b \<or> (key z = key b \<and> P z b)" if b: "b \<in> set zs" for b
  proof (cases "key z = key b")
    case True
    from Cons.prems(2) [of "key z"] have "\<forall>y \<in> set (filter (\<lambda>y. key y = key z) zs). P z y"
      by simp
    with b True show ?thesis by simp
  next
    case False
    with Cons.prems(1) b show ?thesis by auto
  qed
  from Cons.prems(1) have "sorted_wrt (\<lambda>a b. key a \<le> key b) zs" by simp
  with Cons.IH tail head show ?case by simp
qed

lemma sorted_wrt_fst_enumerate: "sorted_wrt (\<lambda>a b. fst a < fst b) (enumerate n xs)"
  by (induction xs arbitrary: n) (auto simp: in_set_enumerate_eq)

lemma sorted_reverse_enumerate:
  "sorted_wrt (\<lambda>a b. snd b < snd a \<or> (snd a = snd b \<and> fst a < fst b))
     (sorted_reverse snd (enumerate 0 arr))"
proof -
  let ?xs = "enumerate 0 arr"
  let ?zs = "sort_key snd (rev ?xs)"
  have asc: "sorted_wrt (\<lambda>a b. snd a \<le> snd b) ?zs"
    using sorted_sort_key [of snd "rev ?xs"] by (simp add: sorted_map)
  have "sorted_wrt (\<lambda>a b. fst b < fst a) (rev ?xs)"
    using sorted_wrt_fst_enumerate [of 0 arr] by (simp add: sorted_wrt_rev)
  then have "sorted_wrt (\<lambda>a b. fst b < fst a) (filter (\<lambda>y. snd y = k) (rev ?xs))" for k
    by (rule sorted_wrt_filter)
  then have ties: "sorted_wrt (\<lambda>a b. fst b < fst a) (filter (\<lambda>y. snd y = k) ?zs)" for k
    by (simp add: sort_key_stable)
  have "sorted_wrt (\<lambda>a b. snd a < snd b \<or> (snd a = snd b \<and> fst b < fst a)) ?zs"
    by (rule sorted_wrt_ties [OF asc ties])
  then have "sorted_wrt (\<lambda>b a. snd a < snd b \<or> (snd a = snd b \<and> fst b < fst a)) (rev ?zs)"
    by (simp add: sorted_wrt_rev)
  then show ?thesis
    by (simp add: sorted_reverse_def conj_commute eq_commute)
qed

lemma set_sorted_reverse [simp]: "set (sorted_reverse key xs) = set xs"
  by (simp add: sorted_reverse_def)

lemma mset_cell_ord_by_res: "mset (cell_ord_by_res arr) = mset [0..<length arr]"
proof -
  have "mset (cell_ord_by_res arr) = image_mset fst (mset (enumerate 0 arr))"
    by (simp add: cell_ord_by_res_def sorted_reverse_def)
  also have "\<dots> = mset (map fst (enumerate 0 arr))"
    by (rule mset_map [symmetric])
  also have "map fst (enumerate 0 arr) = [0..<length arr]"
    by (simp add: map_fst_enumerate)
  finally show ?thesis .
qed

text \<open>
  C4: the ranking lists every cell index exactly once, by indicator descending; of two
  cells with the same indicator the one with the smaller index comes first.
\<close>

theorem cell_ord_by_res_stable_descending:
  "mset (cell_ord_by_res arr) = mset [0..<length arr]
   \<and> sorted_wrt (\<lambda>i j. arr ! j < arr ! i \<or> (arr ! i = arr ! j \<and> i < j)) (cell_ord_by_res arr)"
proof
  show "mset (cell_ord_by_res arr) = mset [0..<length arr]"
    by (rule mset_cell_ord_by_res)
  have "sorted_wrt (\<lambda>a b. arr ! fst b < arr ! fst a \<or> (arr ! fst a = arr ! fst b \<and> fst a < fst b))
          (sorted_reverse snd (enumerate 0 arr))"
  proof (rule sorted_wrt_mono_rel [OF _ sorted_reverse_enumerate])
    fix a b
    assume "a \<in> set (sorted_reverse snd (enumerate 0 arr))"
      and "b \<in> set (sorted_reverse snd (enumerate 0 arr))"
      and "snd b < snd a \<or> (snd a = snd b \<and> fst a < fst b)"
    then show "arr ! fst b < arr ! fst a \<or> (arr ! fst a = arr ! fst b \<and> fst a < fst b)"
      by (simp add: in_set_enumerate_eq)
  qed
  then show "sorted_wrt (\<lambda>i j. arr ! j < arr ! i \<or> (arr ! i = arr ! j \<and> i < j)) (cell_ord_by_res arr)"
    by (simp add: cell_ord_by_res_def sorted_wrt_map)
qed

section \<open>Edges of the marked cells\<close>

lemma fold_append_each: "fold (\<lambda>e edges. edges @ [e]) xs acc = acc @ xs"
  by (induction xs arbitrary: acc) simp_all

lemma fold_links: 
  "fold (\<lambda>cell edges. fold (\<lambda>e edges. edges @ [e]) (links cell) edges) marked acc
     = acc @ concat (map links marked)"
  by (induction marked arbitrary: acc) (simp_all add: fold_append_each)

lemma collect_edges_concat: "collect_edges links marked = concat (map links marked)"
  by (simp add: collect_edges_def fold_links)

lemma count_list_append: "count_list (xs @ ys) e = count_list xs e + count_list ys e"
  by (induction xs) simp_all

lemma count_list_concat: "count_list (concat xss) e = (\<Sum>xs\<leftarrow>xss. count_list xs e)"
  by (induction xss) (simp_all add: count_list_append)

text \<open>
  C5: the edge list is the edge lists of the marked cells one after the other, in the order
  of the marked cells; nothing is removed, so an edge occurs as many times as the marked
  cells list it.
\<close>

theorem collect_edges_keeps_duplicates:
  "collect_edges links marked = concat (map links marked)
   \<and> length (collect_edges links marked) = (\<Sum>c\<leftarrow>marked. length (links c))
   \<and> count_list (collect_edges links marked) e = (\<Sum>c\<leftarrow>marked. count_list (links c) e)"
  by (simp add: collect_edges_concat length_concat count_list_concat comp_def)

lemma collect_edges_shared_edge:
  "collect_edges (\<lambda>c. if c = 0 then [0, 1, 2] else [1, 3, 4]) [0, 1] = [0, 1, 2, 1, 3, 4]"
  by (simp add: collect_edges_def)

section \<open>The marked set is not empty\<close>

lemma round_to_53_pos:
  assumes "0 < N"
  shows "0 < round_to_53 N"
proof (cases "floorlog 2 N \<le> 53")
  case True
  with assms show ?thesis by (simp add: round_to_53_def)
next
  case False
  let ?s = "floorlog 2 N - 53"
  have "(2::nat) ^ ?s \<le> 2 ^ (floorlog 2 N - 1)"
    by (intro power_increasing) simp_all
  also have "\<dots> \<le> N" using floorlog_bounds [of N 2] assms by simp
  finally have "0 < N div 2 ^ ?s" by (simp add: div_greater_zero_iff)
  with False show ?thesis by (simp add: round_to_53_def Let_def)
qed

lemma num_cells_to_refine_pos:
  assumes "0 < n"
  shows "0 < num_cells_to_refine n"
proof -
  have "0 < round_to_53 (3602879701896397 * n)"
    using assms by (intro round_to_53_pos) simp
  then have "0 < fl_mul_005 n" by (simp add: fl_mul_005_def)
  then show ?thesis by (simp add: num_cells_to_refine_def)
qed

lemma sum_list_const_on:
  "\<forall>c \<in> set xs. g c = (k::nat) \<Longrightarrow> (\<Sum>c\<leftarrow>xs. g c) = k * length xs"
  by (induction xs) simp_all

lemma set_cell_ord_by_res: "set (cell_ord_by_res arr) = {0..<length arr}"
  using mset_cell_ord_by_res [of arr] by (metis set_mset_mset set_upt)

lemma marked_cells_in_range:
  "c \<in> set (marked_cells n arr) \<Longrightarrow> c < length arr"
  using set_cell_ord_by_res [of arr] by (auto simp: marked_cells_def dest: in_set_takeD)

lemma marked_cells_nonempty:
  assumes "0 < n" "arr \<noteq> []"
  shows "marked_cells n arr \<noteq> []"
proof -
  have "length (cell_ord_by_res arr) \<noteq> 0" using assms(2) by simp
  then have "cell_ord_by_res arr \<noteq> []" by (simp only: length_0_conv not_False_eq_True)
  with num_cells_to_refine_pos [OF assms(1)] show ?thesis
    by (simp add: marked_cells_def)
qed

text \<open>
  C10: on a mesh with at least one cell, all of them triangles with their three edges, at
  least one cell is marked and the edge list handed to the refinement is not empty: it has
  three entries for every marked cell.
\<close>

theorem marked_edges_nonempty:
  assumes "0 < num_cells m" and "\<forall>c<num_cells m. length (c_to_e m c) = 3"
  shows "1 \<le> num_cells_to_refine (num_cells m)
       \<and> marked_cells (num_cells m) (array_cell_res m u f) \<noteq> []
       \<and> collect_edges (c_to_e m) (marked_cells (num_cells m) (array_cell_res m u f)) \<noteq> []
       \<and> length (collect_edges (c_to_e m) (marked_cells (num_cells m) (array_cell_res m u f)))
           = 3 * length (marked_cells (num_cells m) (array_cell_res m u f))"
proof -
  let ?marked = "marked_cells (num_cells m) (array_cell_res m u f)"
  have k: "1 \<le> num_cells_to_refine (num_cells m)"
    using num_cells_to_refine_pos [OF assms(1)] by simp
  have "length (array_cell_res m u f) \<noteq> 0" using assms(1) by simp
  then have "array_cell_res m u f \<noteq> []" by (simp only: length_0_conv not_False_eq_True)
  then have ne: "?marked \<noteq> []" by (rule marked_cells_nonempty [OF assms(1)])
  have "\<forall>c \<in> set ?marked. length (c_to_e m c) = 3"
    using assms(2) marked_cells_in_range [of _ "num_cells m" "array_cell_res m u f"] by simp
  then have "(\<Sum>c\<leftarrow>?marked. length (c_to_e m c)) = 3 * length ?marked"
    by (rule sum_list_const_on)
  then have len: "length (collect_edges (c_to_e m) ?marked) = 3 * length ?marked"
    by (simp add: collect_edges_concat length_concat comp_def)
  from ne have "length ?marked \<noteq> 0" by simp
  with len have "length (collect_edges (c_to_e m) ?marked) \<noteq> 0" by simp
  then have "collect_edges (c_to_e m) ?marked \<noteq> []"
    by (simp only: length_0_conv not_False_eq_True)
  with k ne len show ?thesis by simp
qed

theorem marked_edges_nonempty_witness:
  "0 < num_cells example_mesh
   \<and> collect_edges (c_to_e example_mesh)
        (marked_cells (num_cells example_mesh) (array_cell_res example_mesh hat_u (\<lambda>x. 1))) \<noteq> []"
  using marked_edges_nonempty [of example_mesh hat_u "\<lambda>x. 1"]
  by (simp add: example_mesh_def)

section \<open>The assembled indicator\<close>

lemma quad_alt: "quad r g = (\<Sum>p\<leftarrow>r. fst p * g (snd p))"
  unfolding quad_def by (induction r) auto

lemma quad_zero [simp]: "quad r (\<lambda>x. 0) = 0"
  by (induction r) (simp_all add: quad_alt)

lemma quad_nonneg:
  assumes "\<forall>p\<in>set r. 0 \<le> fst p" and "\<And>x. 0 \<le> g x"
  shows "0 \<le> quad r g"
  unfolding quad_alt using assms
  by (intro sum_list_nonneg) auto

lemma sum_list_all_zero: "\<forall>x\<in>set xs. g x = (0::real) \<Longrightarrow> (\<Sum>x\<leftarrow>xs. g x) = 0"
  by (induction xs) simp_all

lemma sum_list_upt_none:
  "n \<le> T \<Longrightarrow> (\<Sum>K\<leftarrow>[0..<n]. if K = T then a K else (0::real)) = 0"
  by (rule sum_list_all_zero) simp

lemma sum_list_upt_delta:
  "T < n \<Longrightarrow> (\<Sum>K\<leftarrow>[0..<n]. if K = T then a K else (0::real)) = a T"
proof (induction n)
  case 0
  then show ?case by simp
next
  case (Suc n)
  show ?case
  proof (cases "T = n")
    case True
    then show ?thesis using sum_list_upt_none [of n T a] by simp
  next
    case False
    with Suc show ?thesis by simp
  qed
qed

lemma area_term:
  "quad (area_rule m K) (\<lambda>x. test_fn i K) = (if K = i then sum_list (map fst (area_rule m i)) else 0)"
  by (simp add: quad_alt test_fn_def)

lemma cell_area_inside: "i < num_cells m \<Longrightarrow> cell_area m i = sum_list (map fst (area_rule m i))"
  unfolding cell_area_def area_term by (rule sum_list_upt_delta)

lemma cell_area_outside: "num_cells m \<le> i \<Longrightarrow> cell_area m i = 0"
  unfolding cell_area_def area_term by (rule sum_list_upt_none)

lemma cell_integrand_cases:
  "cell_integrand m u f T K
     = (if K = T then (\<lambda>x. 2 * cell_area m T * (div_grad u T x + f x) ^ 2) else (\<lambda>x. 0))"
  by (simp add: cell_integrand_def test_fn_def fun_eq_iff)

lemma cell_term:
  "quad (dx_rule m K) (cell_integrand m u f T K)
     = (if K = T then quad (dx_rule m T) (\<lambda>x. 2 * cell_area m T * (div_grad u T x + f x) ^ 2) else 0)"
  by (simp add: cell_integrand_cases)

lemma cell_part:
  "T < num_cells m \<Longrightarrow>
   (\<Sum>K\<leftarrow>[0..<num_cells m]. quad (dx_rule m K) (cell_integrand m u f T K))
     = quad (dx_rule m T) (\<lambda>x. 2 * cell_area m T * (div_grad u T x + f x) ^ 2)"
  unfolding cell_term by (rule sum_list_upt_delta)

lemma dot_opposite: "dot a (opposite n) = - dot a n"
  by (simp add: dot_def opposite_def)

lemma facet_integrand_cases:
  assumes "plus_cell E \<noteq> minus_cell E"
  shows "facet_integrand m u T E =
     (if plus_cell E = T \<or> minus_cell E = T
      then (\<lambda>x. sqrt 2 * ((sqrt (cell_area m (plus_cell E)) + sqrt (cell_area m (minus_cell E))) / 2)
                * (1 / 2)
                * (dot (grad u (plus_cell E) x) (normal_plus E)
                     - dot (grad u (minus_cell E) x) (normal_plus E)) ^ 2)
      else (\<lambda>x. 0))"
  using assms
  by (auto simp: facet_integrand_def avg_def test_fn_def jump_def dot_opposite fun_eq_iff)

lemma facet_part:
  assumes "\<forall>E\<in>set fs. plus_cell E \<noteq> minus_cell E"
  shows "(\<Sum>E\<leftarrow>fs. quad (dS_rule E) (facet_integrand m u T E))
     = (\<Sum>E\<leftarrow>filter (\<lambda>E. plus_cell E = T \<or> minus_cell E = T) fs.
          quad (dS_rule E) (\<lambda>x. sqrt 2 * ((sqrt (cell_area m (plus_cell E)) + sqrt (cell_area m (minus_cell E))) / 2)
                * (1 / 2)
                * (dot (grad u (plus_cell E) x) (normal_plus E)
                     - dot (grad u (minus_cell E) x) (normal_plus E)) ^ 2))"
  using assms by (induction fs) (simp_all add: facet_integrand_cases)

lemma residual_entry_split:
  assumes "T < num_cells m" and "\<forall>E\<in>set (interior_facets m). plus_cell E \<noteq> minus_cell E"
  shows "array_cell_res m u f ! T
       = quad (dx_rule m T) (\<lambda>x. 2 * cell_area m T * (div_grad u T x + f x) ^ 2)
       + (\<Sum>E\<leftarrow>filter (\<lambda>E. plus_cell E = T \<or> minus_cell E = T) (interior_facets m).
            quad (dS_rule E) (\<lambda>x. sqrt 2 * ((sqrt (cell_area m (plus_cell E)) + sqrt (cell_area m (minus_cell E))) / 2)
                * (1 / 2)
                * (dot (grad u (plus_cell E) x) (normal_plus E)
                     - dot (grad u (minus_cell E) x) (normal_plus E)) ^ 2))"
  using assms by (simp add: array_cell_res_def residual_entry_def cell_part facet_part)

text \<open>
  C1, as the loop computes it: the indicator of a cell \<open>T\<close> is the integral over \<open>T\<close> of
  \<open>2 * area(T) * (div(grad(uh)) + f)^2\<close>, plus, for every interior facet \<open>E\<close> of \<open>T\<close>, the
  integral over \<open>E\<close> of \<open>sqrt 2\<close> times the mean of the square roots of the two adjacent
  areas times one half (the mean of the test function) times the squared jump of the normal
  derivative; \<open>area(T)\<close> is the sum of the weights of the area rule.
\<close>

theorem residual_entry_formula:
  assumes "T < num_cells m" and "\<forall>E\<in>set (interior_facets m). plus_cell E \<noteq> minus_cell E"
  shows "array_cell_res m u f ! T
       = quad (dx_rule m T) (\<lambda>x. 2 * cell_area m T * (div_grad u T x + f x) ^ 2)
       + (\<Sum>E\<leftarrow>filter (\<lambda>E. plus_cell E = T \<or> minus_cell E = T) (interior_facets m).
            quad (dS_rule E) (\<lambda>x. sqrt 2 * ((sqrt (cell_area m (plus_cell E)) + sqrt (cell_area m (minus_cell E))) / 2)
                * (1 / 2)
                * (dot (grad u (plus_cell E) x) (normal_plus E)
                     - dot (grad u (minus_cell E) x) (normal_plus E)) ^ 2))
     \<and> cell_area m T = sum_list (map fst (area_rule m T))"
  using residual_entry_split [OF assms] cell_area_inside [OF assms(1)] by simp

lemma example_mesh_simps [simp]:
  "num_cells example_mesh = 2"
  "interior_facets example_mesh =
     [\<lparr>plus_cell = 0, minus_cell = 1, normal_plus = (1, 0), dS_rule = [(1, (1, 1 / 2))]\<rparr>]"
  "area_rule example_mesh c = [(1 / 2, if c = 0 then (2 / 3, 1 / 3) else (4 / 3, 1 / 3))]"
  "dx_rule example_mesh c = [(1 / 2, if c = 0 then (2 / 3, 1 / 3) else (4 / 3, 1 / 3))]"
  "c_to_e example_mesh c = (if c = 0 then [0, 1, 2] else [1, 3, 4])"
  by (simp_all add: example_mesh_def)

lemma example_mesh_area [simp]:
  "cell_area example_mesh 0 = 1 / 2" "cell_area example_mesh (Suc 0) = 1 / 2"
  by (simp_all add: cell_area_inside)

lemma sqrt_two_half: "sqrt 2 * sqrt (1 / 2) = 1"
  by (simp add: real_sqrt_divide)

theorem residual_entry_formula_witness:
  "(0::nat) < num_cells example_mesh \<and> array_cell_res example_mesh hat_u (\<lambda>x. 1) ! 0 = 5 / 2"
  using residual_entry_formula [of 0 example_mesh hat_u "\<lambda>x. 1"]
  by (simp add: quad_alt hat_u_def dot_def sqrt_two_half)

text \<open>
  With the weight \<open>area(T)\<close> and the integrand \<open>(div(grad(uh)) - f)^2\<close> the value is
  another one: on the two triangles, for \<open>uh = 0\<close> and \<open>f = 1\<close>, where every jump is zero,
  the assembled entry of cell 0 is \<open>1/2\<close> and the weighted integral is \<open>1/4\<close>.
\<close>

theorem residual_not_area_weighted:
  "array_cell_res example_mesh flat_u (\<lambda>x. 1) ! 0 \<noteq>
     quad (dx_rule example_mesh 0) (\<lambda>x. cell_area example_mesh 0 * (div_grad flat_u 0 x - 1) ^ 2)
     + (\<Sum>E\<leftarrow>filter (\<lambda>E. plus_cell E = 0 \<or> minus_cell E = 0) (interior_facets example_mesh).
          quad (dS_rule E)
            (\<lambda>x. sqrt 2 * avg (sqrt (cell_area example_mesh (plus_cell E)))
                               (sqrt (cell_area example_mesh (minus_cell E)))
                 * (jump (grad flat_u (plus_cell E) x) (grad flat_u (minus_cell E) x)
                      (normal_plus E) (opposite (normal_plus E))) ^ 2))"
  using residual_entry_split [of 0 example_mesh flat_u "\<lambda>x. 1"]
  by (simp add: quad_alt flat_u_def dot_def jump_def)

text \<open>
  The first estimate differs from the loop's in the sign of \<open>f\<close> only; for a piecewise
  linear \<open>uh\<close>, whose \<open>div(grad(uh))\<close> is zero on every cell, the two agree.
\<close>

lemma residual_entry_first_linear:
  assumes "\<And>K x. div_grad u K x = 0"
  shows "residual_entry_first m u f i = residual_entry m u f i"
proof -
  have "cell_integrand_first m u f i K = cell_integrand m u f i K" for K
    by (simp add: cell_integrand_first_def cell_integrand_def assms fun_eq_iff)
  then show ?thesis by (simp add: residual_entry_first_def residual_entry_def)
qed

section \<open>The indicator is not negative\<close>

lemma cell_area_nonneg:
  assumes "nonneg_weights m"
  shows "0 \<le> cell_area m i"
proof (cases "i < num_cells m")
  case True
  with assms have "\<forall>p\<in>set (area_rule m i). 0 \<le> fst p" by (simp add: nonneg_weights_def)
  then have "0 \<le> sum_list (map fst (area_rule m i))" by (intro sum_list_nonneg) auto
  with True show ?thesis by (simp add: cell_area_inside)
next
  case False
  then show ?thesis by (simp add: cell_area_outside)
qed

lemma residual_entry_nonneg:
  assumes "nonneg_weights m"
  shows "0 \<le> residual_entry m u f i"
proof -
  have cells: "0 \<le> quad (dx_rule m K) (cell_integrand m u f i K)" if "K < num_cells m" for K
  proof (rule quad_nonneg)
    show "\<forall>p\<in>set (dx_rule m K). 0 \<le> fst p"
      using assms that by (simp add: nonneg_weights_def)
    show "0 \<le> cell_integrand m u f i K x" for x
      using cell_area_nonneg [OF assms, of K] by (simp add: cell_integrand_def test_fn_def)
  qed
  have facets: "0 \<le> quad (dS_rule E) (facet_integrand m u i E)" if "E \<in> set (interior_facets m)" for E
  proof (rule quad_nonneg)
    show "\<forall>p\<in>set (dS_rule E). 0 \<le> fst p"
      using assms that by (simp add: nonneg_weights_def)
    show "0 \<le> facet_integrand m u i E x" for x
      using cell_area_nonneg [OF assms] by (simp add: facet_integrand_def avg_def test_fn_def)
  qed
  have "0 \<le> (\<Sum>K\<leftarrow>[0..<num_cells m]. quad (dx_rule m K) (cell_integrand m u f i K))"
    using cells by (intro sum_list_nonneg) auto
  moreover have "0 \<le> (\<Sum>E\<leftarrow>interior_facets m. quad (dS_rule E) (facet_integrand m u i E))"
    using facets by (intro sum_list_nonneg) auto
  ultimately show ?thesis by (simp add: residual_entry_def)
qed

text \<open>
  C8: on a mesh whose quadrature weights are not negative, every entry of the assembled
  indicator vector, and so their sum, is not negative.
\<close>

theorem tot_residual_nonneg:
  assumes "nonneg_weights m"
  shows "0 \<le> sum_list (array_cell_res m u f) \<and> (\<forall>r\<in>set (array_cell_res m u f). 0 \<le> r)"
proof -
  have "\<forall>r\<in>set (array_cell_res m u f). 0 \<le> r"
    using residual_entry_nonneg [OF assms] by (auto simp: array_cell_res_def)
  then show ?thesis by (simp add: sum_list_nonneg)
qed

theorem tot_residual_nonneg_witness:
  "0 \<le> sum_list (array_cell_res example_mesh hat_u source_f)"
  using tot_residual_nonneg [of example_mesh hat_u source_f]
  by (simp add: nonneg_weights_def)

section \<open>The loop\<close>

lemma amr_while_exit:
  assumes "tot_residual ((loop_body L f ^^ k) s) \<le> threshold"
    and "\<forall>j<k. threshold < tot_residual ((loop_body L f ^^ j) s)"
  shows "amr_while L f s = Some ((loop_body L f ^^ k) s)"
  using assms
proof (induction k arbitrary: s)
  case 0
  then show ?case by (subst amr_while.simps) simp
next
  case (Suc k)
  from Suc.prems(2) have "threshold < tot_residual ((loop_body L f ^^ 0) s)" by blast
  then have go: "amr_while L f s = amr_while L f (loop_body L f s)"
    by (subst amr_while.simps) simp
  have "tot_residual ((loop_body L f ^^ k) (loop_body L f s)) \<le> threshold"
    using Suc.prems(1) by (simp add: funpow_swap1)
  moreover have "\<forall>j<k. threshold < tot_residual ((loop_body L f ^^ j) (loop_body L f s))"
  proof (intro allI impI)
    fix j assume "j < k"
    then have "Suc j < Suc k" by simp
    with Suc.prems(2) have "threshold < tot_residual ((loop_body L f ^^ Suc j) s)" by blast
    then show "threshold < tot_residual ((loop_body L f ^^ j) (loop_body L f s))"
      by (simp add: funpow_swap1)
  qed
  ultimately have "amr_while L f (loop_body L f s) = Some ((loop_body L f ^^ k) (loop_body L f s))"
    by (rule Suc.IH)
  with go show ?case by (simp add: funpow_swap1)
qed

lemma amr_while_Some:
  assumes ret: "amr_while L f s = Some s'"
  shows "\<exists>k. s' = (loop_body L f ^^ k) s \<and> tot_residual s' \<le> threshold
           \<and> (\<forall>j<k. threshold < tot_residual ((loop_body L f ^^ j) s))"
proof (rule amr_while.raw_induct
    [where P = "\<lambda>L f s s'. \<exists>k. s' = (loop_body L f ^^ k) s \<and> tot_residual s' \<le> threshold
           \<and> (\<forall>j<k. threshold < tot_residual ((loop_body L f ^^ j) s))", OF _ ret])
  fix w :: "services \<Rightarrow> (point \<Rightarrow> real) \<Rightarrow> amr_state \<Rightarrow> amr_state option"
    and L f s y
  assume IH: "\<And>L f s y. w L f s = Some y \<Longrightarrow>
      \<exists>k. y = (loop_body L f ^^ k) s \<and> tot_residual y \<le> threshold
           \<and> (\<forall>j<k. threshold < tot_residual ((loop_body L f ^^ j) s))"
    and eq: "(if threshold < tot_residual s then w L f (loop_body L f s) else Some s) = Some y"
  show "\<exists>k. y = (loop_body L f ^^ k) s \<and> tot_residual y \<le> threshold
           \<and> (\<forall>j<k. threshold < tot_residual ((loop_body L f ^^ j) s))"
  proof (cases "threshold < tot_residual s")
    case True
    with eq have "w L f (loop_body L f s) = Some y" by simp
    from IH [OF this] obtain k where k: "y = (loop_body L f ^^ k) (loop_body L f s)"
      "tot_residual y \<le> threshold"
      "\<forall>j<k. threshold < tot_residual ((loop_body L f ^^ j) (loop_body L f s))" by blast
    have "\<forall>j<Suc k. threshold < tot_residual ((loop_body L f ^^ j) s)"
    proof (intro allI impI)
      fix j assume j: "j < Suc k"
      show "threshold < tot_residual ((loop_body L f ^^ j) s)"
      proof (cases j)
        case 0
        with True show ?thesis by simp
      next
        case (Suc i)
        with j k(3) show ?thesis by (simp add: funpow_swap1)
      qed
    qed
    with k(1,2) have "y = (loop_body L f ^^ Suc k) s \<and> tot_residual y \<le> threshold
           \<and> (\<forall>j<Suc k. threshold < tot_residual ((loop_body L f ^^ j) s))"
      by (simp add: funpow_swap1)
    then show ?thesis by blast
  next
    case False
    with eq have "y = s" by simp
    with False have "y = (loop_body L f ^^ 0) s \<and> tot_residual y \<le> threshold
           \<and> (\<forall>j<0. threshold < tot_residual ((loop_body L f ^^ j) s))" by simp
    then show ?thesis by blast
  qed
qed

lemma amr_while_None:
  assumes "\<forall>k. threshold < tot_residual ((loop_body L f ^^ k) s)"
  shows "amr_while L f s = None"
proof (cases "amr_while L f s")
  case None
  then show ?thesis .
next
  case (Some s')
  from amr_while_Some [OF this] obtain k where
    "s' = (loop_body L f ^^ k) s" "tot_residual s' \<le> threshold" by blast
  with assms [rule_format, of k] show ?thesis by simp
qed

text \<open>
  C2: the loop is left exactly at the first iteration whose total residual is at most
  \<open>5e-2\<close>: a run that returns has its last total residual at most \<open>5e-2\<close>; a run in
  which every total residual is above \<open>5e-2\<close> never returns, nothing else stops it; and a run
  that reaches such a residual for the first time in iteration \<open>k\<close> returns the state of
  iteration \<open>k\<close>.
\<close>

theorem adaptive_loop_exit:
  "(adaptive_loop L f m u = Some s' \<longrightarrow> tot_residual s' \<le> threshold)
   \<and> ((\<forall>k. threshold < tot_residual ((loop_body L f ^^ k) (initial_state m u)))
        \<longrightarrow> adaptive_loop L f m u = None)
   \<and> (tot_residual ((loop_body L f ^^ k) (initial_state m u)) \<le> threshold
        \<and> (\<forall>j<k. threshold < tot_residual ((loop_body L f ^^ j) (initial_state m u)))
        \<longrightarrow> adaptive_loop L f m u = Some ((loop_body L f ^^ k) (initial_state m u)))"
  unfolding adaptive_loop_def
  using amr_while_Some [of L f "initial_state m u" s'] amr_while_None [of L f "initial_state m u"]
    amr_while_exit [where L = L and f = f and k = k and s = "initial_state m u"]
  by blast

lemma tot_residual_loop_body [simp]:
  "tot_residual (loop_body L f s) = sum_list (array_cell_res (msh s) (uh s) f)"
  by (simp add: loop_body_def Let_def)

lemma iteration_loop_body [simp]: "iteration (loop_body L f s) = iteration s + 1"
  by (simp add: loop_body_def Let_def)

lemma initial_state_simps [simp]:
  "msh (initial_state m u) = m" "uh (initial_state m u) = u"
  "tot_residual (initial_state m u) = 1" "iteration (initial_state m u) = 0"
  by (simp_all add: initial_state_def)

lemma threshold_less_one: "threshold < 1"
  by (simp add: threshold_def)

lemma upt_two: "[0..<2] = [0, Suc 0]"
  by (simp add: numeral_2_eq_2)

lemma example_flat_residual:
  "array_cell_res example_mesh flat_u (\<lambda>x. c) = [c ^ 2 / 2, c ^ 2 / 2]"
  by (simp add: array_cell_res_def residual_entry_def upt_two quad_alt cell_integrand_def
      facet_integrand_def test_fn_def flat_u_def jump_def dot_def)

lemma toy_run:
  "adaptive_loop toy_services (\<lambda>x. 1 / 10) example_mesh flat_u
     = Some (loop_body toy_services (\<lambda>x. 1 / 10) (initial_state example_mesh flat_u))"
proof -
  have "amr_while toy_services (\<lambda>x. 1 / 10) (initial_state example_mesh flat_u)
      = Some ((loop_body toy_services (\<lambda>x. 1 / 10) ^^ Suc 0) (initial_state example_mesh flat_u))"
    by (rule amr_while_exit) (simp_all add: example_flat_residual threshold_def power2_eq_square)
  then show ?thesis by (simp add: adaptive_loop_def)
qed

lemma stuck_iterates:
  "(loop_body stuck_services (\<lambda>x. 1) ^^ k) (initial_state example_mesh flat_u)
     = \<lparr>msh = example_mesh, uh = flat_u, tot_residual = 1, iteration = k\<rparr>"
proof (induction k)
  case 0
  then show ?case by (simp add: initial_state_def)
next
  case (Suc k)
  then show ?case
    by (simp add: loop_body_def Let_def stuck_services_def solve_poisson_homog_dirichlet_def
        example_flat_residual)
qed

theorem adaptive_loop_exit_witness:
  "adaptive_loop toy_services (\<lambda>x. 1 / 10) example_mesh flat_u
     = Some (loop_body toy_services (\<lambda>x. 1 / 10) (initial_state example_mesh flat_u))
   \<and> tot_residual (loop_body toy_services (\<lambda>x. 1 / 10) (initial_state example_mesh flat_u))
       \<le> threshold
   \<and> adaptive_loop stuck_services (\<lambda>x. 1) example_mesh flat_u = None"
  using adaptive_loop_exit [of toy_services "\<lambda>x. 1 / 10" example_mesh flat_u
      "loop_body toy_services (\<lambda>x. 1 / 10) (initial_state example_mesh flat_u)" "Suc 0"]
    adaptive_loop_exit [of stuck_services "\<lambda>x. 1" example_mesh flat_u]
  by (simp add: example_flat_residual threshold_def stuck_iterates power2_eq_square)

lemma iteration_funpow: "iteration ((loop_body L f ^^ k) s) = iteration s + k"
  by (induction k) simp_all

text \<open>
  C9: the accumulator starts at 1, above the threshold, so the first test always passes:
  the loop is the loop started after one pass through the body on the initial mesh, and a
  run that returns has made at least one iteration, whatever the residual of the initial
  mesh is.
\<close>

theorem first_iteration_always_runs:
  "adaptive_loop L f m u = amr_while L f (loop_body L f (initial_state m u))
   \<and> (adaptive_loop L f m u = Some s' \<longrightarrow> 1 \<le> iteration s')"
proof
  show "adaptive_loop L f m u = amr_while L f (loop_body L f (initial_state m u))"
    unfolding adaptive_loop_def
    by (subst amr_while.simps) (simp add: threshold_less_one)
  show "adaptive_loop L f m u = Some s' \<longrightarrow> 1 \<le> iteration s'"
  proof
    assume "adaptive_loop L f m u = Some s'"
    then have "amr_while L f (initial_state m u) = Some s'" by (simp add: adaptive_loop_def)
    from amr_while_Some [OF this] obtain k where
      k: "s' = (loop_body L f ^^ k) (initial_state m u)" "tot_residual s' \<le> threshold"
      by blast
    have "k \<noteq> 0"
    proof
      assume "k = 0"
      with k have "(1::real) \<le> threshold" by simp
      with threshold_less_one show False by simp
    qed
    with k(1) show "1 \<le> iteration s'" by (simp add: iteration_funpow)
  qed
qed

theorem first_iteration_always_runs_witness:
  "sum_list (array_cell_res example_mesh flat_u (\<lambda>x. 1 / 10)) \<le> threshold
   \<and> adaptive_loop toy_services (\<lambda>x. 1 / 10) example_mesh flat_u
       = Some (loop_body toy_services (\<lambda>x. 1 / 10) (initial_state example_mesh flat_u))
   \<and> 1 \<le> iteration (loop_body toy_services (\<lambda>x. 1 / 10) (initial_state example_mesh flat_u))"
  using first_iteration_always_runs [of toy_services "\<lambda>x. 1 / 10" example_mesh flat_u
      "loop_body toy_services (\<lambda>x. 1 / 10) (initial_state example_mesh flat_u)"] toy_run
  by (simp add: example_flat_residual threshold_def power2_eq_square)

section \<open>Refinement only\<close>

lemma loop_edges_ok:
  assumes "triangles m"
  shows "collect_edges (c_to_e m) (marked_cells (num_cells m) (array_cell_res m u f)) \<noteq> []
       \<and> set (collect_edges (c_to_e m) (marked_cells (num_cells m) (array_cell_res m u f)))
           \<subseteq> edges_of m"
proof -
  let ?marked = "marked_cells (num_cells m) (array_cell_res m u f)"
  from assms have pos: "0 < num_cells m" and three: "\<forall>c<num_cells m. length (c_to_e m c) = 3"
    by (simp_all add: triangles_def)
  have range: "c < num_cells m" if "c \<in> set ?marked" for c
    using marked_cells_in_range [OF that] by simp
  have "length (array_cell_res m u f) \<noteq> 0" using pos by simp
  then have "array_cell_res m u f \<noteq> []" by (simp only: length_0_conv not_False_eq_True)
  then have "?marked \<noteq> []" by (rule marked_cells_nonempty [OF pos])
  then obtain c cs where cs: "?marked = c # cs" by (cases ?marked) auto
  then have "c < num_cells m" using range by simp
  with three have "length (c_to_e m c) = 3" by simp
  then have "c_to_e m c \<noteq> []" by auto
  with cs have ne: "collect_edges (c_to_e m) ?marked \<noteq> []"
    by (simp add: collect_edges_concat)
  have "set (collect_edges (c_to_e m) ?marked) \<subseteq> edges_of m"
    using range by (auto simp: collect_edges_concat edges_of_def)
  with ne show ?thesis by simp
qed

lemma loop_body_refines:
  assumes "triangles (msh s)" and "refines L"
  shows "triangles (msh (loop_body L f s)) \<and> num_cells (msh s) < num_cells (msh (loop_body L f s))"
proof -
  let ?edges = "collect_edges (c_to_e (msh s))
      (marked_cells (num_cells (msh s)) (array_cell_res (msh s) (uh s) f))"
  have m': "msh (loop_body L f s) = refine L (msh s) ?edges"
    by (simp add: loop_body_def Let_def)
  from loop_edges_ok [where m = "msh s" and u = "uh s" and f = f, OF assms(1)]
  have "?edges \<noteq> []" "set ?edges \<subseteq> edges_of (msh s)" by simp_all
  with assms show ?thesis unfolding m' refines_def by blast
qed

lemma triangles_funpow:
  assumes "triangles m" and "refines L"
  shows "triangles (msh ((loop_body L f ^^ k) (initial_state m u)))"
proof (induction k)
  case 0
  with assms(1) show ?case by simp
next
  case (Suc k)
  from loop_body_refines [OF Suc assms(2), where f = f] show ?case by simp
qed

lemma cell_count_step:
  assumes "triangles m" and "refines L"
  shows "num_cells (msh ((loop_body L f ^^ k) (initial_state m u)))
       < num_cells (msh ((loop_body L f ^^ Suc k) (initial_state m u)))"
proof -
  have "triangles (msh ((loop_body L f ^^ k) (initial_state m u)))"
    by (rule triangles_funpow [OF assms])
  from loop_body_refines [OF this assms(2), where f = f] show ?thesis by simp
qed

text \<open>
  C6: started on a triangular mesh, with a refinement that splits cells at the edges it is
  given, every pass through the body ends on a mesh with strictly more cells than it
  started on, and the cell count never goes down from one iteration to a later one.
\<close>

theorem cell_count_increases:
  assumes "triangles m" and "refines L"
  shows "num_cells (msh ((loop_body L f ^^ k) (initial_state m u)))
       < num_cells (msh ((loop_body L f ^^ Suc k) (initial_state m u)))
     \<and> (i \<le> j \<longrightarrow> num_cells (msh ((loop_body L f ^^ i) (initial_state m u)))
                  \<le> num_cells (msh ((loop_body L f ^^ j) (initial_state m u))))"
proof
  show "num_cells (msh ((loop_body L f ^^ k) (initial_state m u)))
       < num_cells (msh ((loop_body L f ^^ Suc k) (initial_state m u)))"
    by (rule cell_count_step [OF assms])
  show "i \<le> j \<longrightarrow> num_cells (msh ((loop_body L f ^^ i) (initial_state m u)))
                  \<le> num_cells (msh ((loop_body L f ^^ j) (initial_state m u)))"
  proof
    assume "i \<le> j"
    then show "num_cells (msh ((loop_body L f ^^ i) (initial_state m u)))
                  \<le> num_cells (msh ((loop_body L f ^^ j) (initial_state m u)))"
    proof (induction j)
      case 0
      then show ?case by simp
    next
      case (Suc j)
      show ?case
      proof (cases "i = Suc j")
        case True
        then show ?thesis by simp
      next
        case False
        with Suc.prems have "i \<le> j" by simp
        from Suc.IH [OF this] cell_count_step [OF assms, where f = f and k = j and u = u]
        show ?thesis by linarith
      qed
    qed
  qed
qed

lemma triangles_example_mesh: "triangles example_mesh"
  by (simp add: triangles_def)

lemma refines_toy_services: "refines toy_services"
  by (auto simp: refines_def triangles_def toy_services_def)

theorem cell_count_increases_witness:
  "num_cells (msh (initial_state example_mesh flat_u))
     < num_cells (msh (loop_body toy_services source_f (initial_state example_mesh flat_u)))"
  using cell_count_increases [OF triangles_example_mesh refines_toy_services,
      where f = source_f and k = 0 and u = flat_u]
  by simp

section \<open>The Dirichlet boundary\<close>

lemma isclose_same: "isclose a a"
  by (simp add: isclose_def)

lemma bc_marker_on_four_edges: "on_four_edges x \<Longrightarrow> bc_marker x"
  by (auto simp: on_four_edges_def bc_marker_def isclose_same)

text \<open>
  The marker alone holds of points near the four edges as well; that the located dofs are
  on the edges is due to the facets being taken from the boundary of the mesh.
\<close>

lemma bc_marker_near_edge: "bc_marker (1 / 10 ^ 9, 1 / 2) \<and> \<not> on_four_edges (1 / 10 ^ 9, 1 / 2)"
  by (simp add: bc_marker_def isclose_def on_four_edges_def)

lemma locate_entities_boundary_all:
  assumes "rectangle_mesh m"
  shows "locate_entities_boundary m bc_marker = exterior_facets m"
proof -
  have "\<forall>F\<in>set (exterior_facets m). \<forall>v\<in>set (facet_vertices m F). bc_marker (vertex_x m v)"
    using assms by (auto simp: rectangle_mesh_def intro: bc_marker_on_four_edges)
  then show ?thesis by (simp add: locate_entities_boundary_def)
qed

lemma boundary_dofs_on_four_edges:
  assumes "rectangle_mesh m"
  shows "set (locate_dofs_topological m (locate_entities_boundary m bc_marker))
       = {v. v < num_vertices m \<and> on_four_edges (vertex_x m v)}"
proof -
  have "set (locate_dofs_topological m (locate_entities_boundary m bc_marker))
      = (\<Union>F\<in>set (exterior_facets m). set (facet_vertices m F))"
    by (simp add: locate_dofs_topological_def locate_entities_boundary_all [OF assms])
  also have "\<dots> = {v. v < num_vertices m \<and> on_four_edges (vertex_x m v)}"
    using assms unfolding rectangle_mesh_def by blast
  finally show ?thesis .
qed

lemma solve_zero_on_four_edges:
  assumes "rectangle_mesh m" and "enforces_bc L"
    and "v < num_vertices m" and "on_four_edges (vertex_x m v)"
  shows "nodal (solve_poisson_homog_dirichlet L m f bc_marker) v = 0"
proof -
  let ?dofs = "locate_dofs_topological m (locate_entities_boundary m bc_marker)"
  have "v \<in> set ?dofs"
    using boundary_dofs_on_four_edges [OF assms(1)] assms(3,4) by simp
  with assms(2) have "nodal (linear_problem_solve L m f [(0, ?dofs)]) v = 0"
    unfolding enforces_bc_def by blast
  then show ?thesis by (simp add: solve_poisson_homog_dirichlet_def Let_def)
qed

lemma uh_loop_body:
  "uh (loop_body L f s) = solve_poisson_homog_dirichlet L (msh (loop_body L f s)) f bc_marker"
  by (simp add: loop_body_def Let_def)

text \<open>
  C7: on a mesh of the rectangle, with a linear solve that gives the solution the value of
  its Dirichlet condition at the dofs of the condition, the dofs that the marker locates
  are exactly the vertices on the four edges of the rectangle, and the solution returned
  by \<open>solve_poisson_homog_dirichlet\<close> is zero at each of them; so is the solution that an
  iteration of the loop ends with.
\<close>

theorem dirichlet_dofs_zero:
  assumes "rectangle_mesh m" and "enforces_bc L"
  shows "set (locate_dofs_topological m (locate_entities_boundary m bc_marker))
       = {v. v < num_vertices m \<and> on_four_edges (vertex_x m v)}
     \<and> (\<forall>v<num_vertices m. on_four_edges (vertex_x m v)
          \<longrightarrow> nodal (solve_poisson_homog_dirichlet L m f bc_marker) v = 0)
     \<and> (rectangle_mesh (msh (loop_body L f s))
          \<longrightarrow> (\<forall>v<num_vertices (msh (loop_body L f s)).
                 on_four_edges (vertex_x (msh (loop_body L f s)) v)
                 \<longrightarrow> nodal (uh (loop_body L f s)) v = 0))"
  using boundary_dofs_on_four_edges [OF assms(1)]
    solve_zero_on_four_edges [OF assms, where f = f]
    solve_zero_on_four_edges [OF _ assms(2), where m = "msh (loop_body L f s)" and f = f]
  by (simp add: uh_loop_body)

lemma rect_mesh_simps [simp]:
  "num_vertices rect_mesh = 5"
  "exterior_facets rect_mesh = [0, 1, 2, 3]"
  "vertex_x rect_mesh v = (if v = 0 then (0, 0) else if v = 1 then (2, 0)
      else if v = 2 then (2, 1) else if v = 3 then (0, 1) else (1, 1 / 2))"
  "facet_vertices rect_mesh F = (if F = 0 then [0, 1] else if F = 1 then [1, 2]
      else if F = 2 then [2, 3] else if F = 3 then [3, 0]
      else if F = 4 then [0, 4] else if F = 5 then [1, 4]
      else if F = 6 then [2, 4] else [3, 4])"
  by (simp_all add: rect_mesh_def)

lemma rectangle_mesh_rect_mesh: "rectangle_mesh rect_mesh"
proof -
  have "v = 0 \<or> v = 1 \<or> v = 2 \<or> v = 3 \<or> v = 4" if "v < 5" for v :: nat
    using that by arith
  then show ?thesis
    by (auto simp: rectangle_mesh_def on_four_edges_def)
qed

lemma enforces_bc_pinning_services: "enforces_bc pinning_services"
  by (simp add: enforces_bc_def pinning_services_def)

lemma msh_loop_body_pinning [simp]: "msh (loop_body pinning_services f s) = msh s"
  by (simp add: loop_body_def Let_def pinning_services_def)

theorem dirichlet_dofs_zero_witness:
  "2 \<in> set (locate_dofs_topological rect_mesh (locate_entities_boundary rect_mesh bc_marker))
   \<and> 4 \<notin> set (locate_dofs_topological rect_mesh (locate_entities_boundary rect_mesh bc_marker))
   \<and> nodal (solve_poisson_homog_dirichlet pinning_services rect_mesh source_f bc_marker) 2 = 0
   \<and> nodal (uh (loop_body pinning_services source_f (initial_state rect_mesh flat_u))) 2 = 0"
  using dirichlet_dofs_zero [OF rectangle_mesh_rect_mesh enforces_bc_pinning_services,
      where f = source_f and s = "initial_state rect_mesh flat_u"]
    rectangle_mesh_rect_mesh
  by (simp add: on_four_edges_def)

end
